theory Spec2Isabelle
  imports Main "HOL-Library.Word"
begin

unbundle bit_operations_syntax

section \<open>The packet deserializer of \<open>deserializer_kiss.py\<close>\<close>

text \<open>
  The program reads a serial link in a loop: it reads as many bytes as the sync marker
  has, tests them against the marker \<open>0xdeadbeef\<close> and, when they match, reads the
  twelve bytes of the payload, unpacks them into the fields \<open>x\<close>, \<open>y\<close>, \<open>z\<close> of its
  one \<open>Packet\<close> object and prints them.

  Python's \<open>bytes\<close> are lists of 8-bit words, Python's integers are \<open>int\<close>, format
  strings are \<open>string\<close>, exceptions are the left summand of a sum type.
\<close>

type_synonym byte = "8 word"

datatype error =
    StructError         \<comment> \<open>\<open>struct.error\<close>: buffer of the wrong size, value out of range\<close>
  | IndexError          \<comment> \<open>\<open>[0]\<close> on an empty tuple\<close>
  | UnsupportedFormat   \<comment> \<open>a format string outside the fragment modelled below\<close>
  | NoSuchObject        \<comment> \<open>a reference that no object of the store answers to\<close>

subsection \<open>The fragment of the \<open>struct\<close> module that the program uses\<close>

text \<open>
  The program only uses the formats \<open><I\<close> and \<open><III\<close> (and its sender \<open><IIII\<close>):
  little-endian, standard sizes, no padding, every field an unsigned 32-bit integer.
  The model covers the formats \<open><\<close> followed by any number of \<open>I\<close>; every other
  format string is answered by \<open>UnsupportedFormat\<close> and no theorem below depends on it.
\<close>

definition field_count :: "string \<Rightarrow> error + nat" where
  "field_count fmt =
     (case fmt of
        [] \<Rightarrow> Inl UnsupportedFormat
      | c # cs \<Rightarrow>
          if c = CHR ''<'' \<and> list_all (\<lambda>d. d = CHR ''I'') cs then Inr (length cs)
          else Inl UnsupportedFormat)"

definition calcsize :: "string \<Rightarrow> error + nat" where
  "calcsize fmt = (case field_count fmt of Inl e \<Rightarrow> Inl e | Inr k \<Rightarrow> Inr (4 * k))"

text \<open>An unsigned little-endian integer: the first byte is the least significant one.\<close>

fun le_uint :: "byte list \<Rightarrow> int" where
  "le_uint [] = 0"
| "le_uint (b # bs) = uint b + 256 * le_uint bs"

fun unpack_fields :: "nat \<Rightarrow> byte list \<Rightarrow> int list" where
  "unpack_fields 0 bs = []"
| "unpack_fields (Suc k) bs = le_uint (take 4 bs) # unpack_fields k (drop 4 bs)"

text \<open>\<open>struct.unpack(fmt, buffer)\<close>: the buffer must have exactly the size of the format.\<close>

definition unpack :: "string \<Rightarrow> byte list \<Rightarrow> error + int list" where
  "unpack fmt bs =
     (case field_count fmt of
        Inl e \<Rightarrow> Inl e
      | Inr k \<Rightarrow> if length bs \<noteq> 4 * k then Inl StructError else Inr (unpack_fields k bs))"

text \<open>The bytes of an unsigned little-endian integer of a given width.\<close>

fun le_bytes :: "nat \<Rightarrow> int \<Rightarrow> byte list" where
  "le_bytes 0 v = []"
| "le_bytes (Suc n) v = word_of_int (v mod 256) # le_bytes n (v div 256)"

text \<open>
  \<open>struct.pack(fmt, v1, ..., vk)\<close>: as many values as fields, each one in the range
  of an unsigned 32-bit integer.
\<close>

definition pack :: "string \<Rightarrow> int list \<Rightarrow> error + byte list" where
  "pack fmt vs =
     (case field_count fmt of
        Inl e \<Rightarrow> Inl e
      | Inr k \<Rightarrow>
          if length vs \<noteq> k then Inl StructError
          else if list_all (\<lambda>v. 0 \<le> v \<and> v < 2 ^ 32) vs then Inr (concat (map (le_bytes 4) vs))
          else Inl StructError)"

subsection \<open>class \<open>Marker\<close>\<close>

record Marker =
  m_marker :: int
  m_format :: string
  m_length :: nat

text \<open>\<open>Marker.__init__\<close>: the length is computed from the format.\<close>

definition Marker_init :: "int \<Rightarrow> string \<Rightarrow> error + Marker" where
  "Marker_init mk fmt =
     (case calcsize fmt of
        Inl e \<Rightarrow> Inl e
      | Inr n \<Rightarrow> Inr \<lparr>m_marker = mk, m_format = fmt, m_length = n\<rparr>)"

text \<open>\<open>Marker.sync\<close>: unpack the window, take element 0 of the tuple, compare.\<close>

definition Marker_sync :: "Marker \<Rightarrow> byte list \<Rightarrow> error + bool" where
  "Marker_sync self bytes_object =
     (case unpack (m_format self) bytes_object of
        Inl e \<Rightarrow> Inl e
      | Inr [] \<Rightarrow> Inl IndexError
      | Inr (result # _) \<Rightarrow> (if m_marker self = result then Inr True else Inr False))"

subsection \<open>class \<open>Packet\<close>\<close>

record Packet =
  p_marker :: Marker
  p_format :: string
  p_length :: nat
  p_x :: int
  p_y :: int
  p_z :: int

text \<open>\<open>Packet.__init__\<close>: the marker component, the fixed payload format, zeroed fields.\<close>

definition Packet_init :: "int \<Rightarrow> string \<Rightarrow> error + Packet" where
  "Packet_init mk marker_format =
     (case Marker_init mk marker_format of
        Inl e \<Rightarrow> Inl e
      | Inr m \<Rightarrow>
          (case calcsize ''<III'' of
             Inl e \<Rightarrow> Inl e
           | Inr n \<Rightarrow>
               Inr \<lparr>p_marker = m, p_format = ''<III'', p_length = n,
                    p_x = 0, p_y = 0, p_z = 0\<rparr>))"

text \<open>
  \<open>Packet.deserialize\<close> returns nothing and assigns to \<open>self.x\<close>, \<open>self.y\<close>, \<open>self.z\<close>,
  one after the other: the model returns the object after the call. When the call
  raises, the object is returned with the exception, as the call has left it: untouched
  when \<open>struct.unpack\<close> raises, with the fields assigned so far when the tuple is too
  short for the next index.
\<close>

definition Packet_deserialize :: "Packet \<Rightarrow> byte list \<Rightarrow> (error \<times> Packet) + Packet" where
  "Packet_deserialize self bytes_object =
     (case unpack (p_format self) bytes_object of
        Inl e \<Rightarrow> Inl (e, self)
      | Inr pkt \<Rightarrow>
          (case pkt of
             [] \<Rightarrow> Inl (IndexError, self)
           | [a] \<Rightarrow> Inl (IndexError, self\<lparr>p_x := a\<rparr>)
           | [a, b] \<Rightarrow> Inl (IndexError, self\<lparr>p_x := a, p_y := b\<rparr>)
           | a # b # c # _ \<Rightarrow> Inr (self\<lparr>p_x := a, p_y := b, p_z := c\<rparr>)))"

text \<open>
  \<open>Packet.log\<close> prints one line with \<open>x\<close>, \<open>y\<close> and \<open>z\<close> as eight hexadecimal digits each.
  A printed line is modelled by the three values it renders.
\<close>

type_synonym line = "int \<times> int \<times> int"

definition Packet_log :: "Packet \<Rightarrow> line" where
  "Packet_log self = (p_x self, p_y self, p_z self)"

subsection \<open>The sender, as the header of the file gives it\<close>

text \<open>\<open>serialize\<close> of the sender's \<open>Packet(m, x, y, z)\<close>: \<open>struct.pack('<IIII', m, x, y, z)\<close>.\<close>

definition serialize :: "int \<Rightarrow> int \<Rightarrow> int \<Rightarrow> int \<Rightarrow> error + byte list" where
  "serialize m x y z = pack ''<IIII'' [m, x, y, z]"

subsection \<open>The store, the serial port and the console\<close>

text \<open>
  Python objects live in a store and variables hold references to them. The store is
  the list of the \<open>Packet\<close> objects constructed so far, a reference is an index into
  it, and constructing an object appends to it: nothing is ever removed, so the length
  of the store counts the objects that were constructed.
\<close>

type_synonym ref = nat

definition lookup :: "Packet list \<Rightarrow> ref \<Rightarrow> error + Packet" where
  "lookup h r = (if r < length h then Inr (h ! r) else Inl NoSuchObject)"

text \<open>
  The serial port is the external byte source. \<open>pending\<close> are the bytes that the link
  will still deliver and \<open>consumed\<close> counts the bytes read so far, so that \<open>consumed\<close>
  is the offset in the stream of the next byte. \<open>console\<close> are the lines printed so far.
  \<open>seeks\<close> is a history variable that the source does not have: for every window that
  \<open>sync\<close> has tested, oldest first, its offset in the stream and the answer of \<open>sync\<close>.
  No decision of the loop reads it.
\<close>

record world =
  heap :: "Packet list"
  pending :: "byte list"
  consumed :: nat
  console :: "line list"
  seeks :: "(nat \<times> bool) list"

text \<open>\<open>Packet(marker, marker_format)\<close>: construct the object and return a reference to it.\<close>

definition Packet_new :: "int \<Rightarrow> string \<Rightarrow> world \<Rightarrow> error + (ref \<times> world)" where
  "Packet_new mk marker_format w =
     (case Packet_init mk marker_format of
        Inl e \<Rightarrow> Inl e
      | Inr p \<Rightarrow> Inr (length (heap w), w\<lparr>heap := heap w @ [p]\<rparr>))"

text \<open>
  \<open>serial_port.read(n)\<close> on a port opened without a timeout blocks until \<open>n\<close> bytes have
  arrived. On a finite stream the call returns the next \<open>n\<close> bytes when that many are
  left, and never returns otherwise: \<open>None\<close>.
\<close>

definition read :: "nat \<Rightarrow> world \<Rightarrow> (byte list \<times> world) option" where
  "read n w =
     (if n \<le> length (pending w)
      then Some (take n (pending w),
                 w\<lparr>pending := drop n (pending w), consumed := consumed w + n\<rparr>)
      else None)"

subsection \<open>\<open>main\<close>\<close>

text \<open>How the loop stops on a finite stream: inside a \<open>read\<close>, or by an exception.\<close>

datatype outcome = Blocked | Raised error

datatype step = Continue world | Stop outcome world

text \<open>
  One pass through the body of \<open>while True\<close>, for the object that the variable
  \<open>packet\<close> refers to: read a window of the marker's length and test it; when it is the
  marker, read the payload, deserialize it into the object and log the object.
\<close>

definition iteration :: "ref \<Rightarrow> world \<Rightarrow> step" where
  "iteration packet w =
     (case lookup (heap w) packet of
        Inl e \<Rightarrow> Stop (Raised e) w
      | Inr self \<Rightarrow>
     (case read (m_length (p_marker self)) w of
        None \<Rightarrow> Stop Blocked w
      | Some (raw_bytes_object, w1) \<Rightarrow>
     (case Marker_sync (p_marker self) raw_bytes_object of
        Inl e \<Rightarrow> Stop (Raised e) w1
      | Inr synced \<Rightarrow>
          (let w2 = w1\<lparr>seeks := seeks w1 @ [(consumed w, synced)]\<rparr> in
           if synced then
             (case read (p_length self) w2 of
                None \<Rightarrow> Stop Blocked w2
              | Some (payload, w3) \<Rightarrow>
                  (case Packet_deserialize self payload of
                     Inl (e, self') \<Rightarrow>
                       Stop (Raised e) (w3\<lparr>heap := (heap w3)[packet := self']\<rparr>)
                   | Inr self' \<Rightarrow>
                       Continue (w3\<lparr>heap := (heap w3)[packet := self'],
                                   console := console w3 @ [Packet_log self']\<rparr>)))
           else Continue w2))))"

text \<open>
  \<open>while True\<close>. Every pass that does not stop has read at least the four bytes of a
  window that \<open>struct.unpack\<close> accepted, so on a finite stream the loop stops.
\<close>

function main_loop :: "ref \<Rightarrow> world \<Rightarrow> outcome \<times> world" where
  "main_loop packet w =
     (case iteration packet w of
        Stop how w' \<Rightarrow> (how, w')
      | Continue w' \<Rightarrow> main_loop packet w')"
  by pat_completeness auto
termination
proof (relation "measure (\<lambda>(packet, w). length (pending w))")
  show "wf (measure (\<lambda>(packet, w). length (pending w)))"
    by simp
next
  fix packet :: ref and w w' :: world
  assume step: "iteration packet w = Continue w'"
  have fields: "length (unpack_fields k bs) = k" for k bs
    by (induction k arbitrary: bs) auto
  have buffer: "length bs = 4 * length vs" if "unpack fmt bs = Inr vs" for fmt bs vs
    using that by (auto simp: unpack_def fields split: sum.splits if_splits)
  have window: "4 \<le> length bs" if "Marker_sync m bs = Inr b" for m bs b
    using that buffer [of "m_format m" bs]
    by (auto simp: Marker_sync_def split: sum.splits list.splits if_splits)
  from step have "length (pending w') < length (pending w)"
    by (auto simp: iteration_def read_def Let_def
             split: sum.splits option.splits if_splits dest!: window)
       arith+
  then show "((packet, w'), (packet, w)) \<in> measure (\<lambda>(packet, w). length (pending w))"
    by simp
qed

declare main_loop.simps [simp del]

text \<open>
  \<open>main\<close> on a serial port that delivers the bytes \<open>stream\<close>: one \<open>Packet\<close> is
  constructed before the loop, then the loop runs.
\<close>

definition main :: "byte list \<Rightarrow> outcome \<times> world" where
  "main stream =
     (let w0 = \<lparr>heap = [], pending = stream, consumed = 0, console = [], seeks = []\<rparr>
      in case Packet_new 0xdeadbeef ''<I'' w0 of
           Inl e \<Rightarrow> (Raised e, w0)
         | Inr (packet, w) \<Rightarrow> main_loop packet w)"

subsection \<open>Vocabulary of the properties\<close>

text \<open>The marker and the packet that \<open>main\<close> constructs (see \<open>Marker_init_main\<close> below).\<close>

definition main_marker :: Marker where
  "main_marker = \<lparr>m_marker = 0xdeadbeef, m_format = ''<I'', m_length = 4\<rparr>"

definition main_packet :: Packet where
  "main_packet = \<lparr>p_marker = main_marker, p_format = ''<III'', p_length = 12,
                   p_x = 0, p_y = 0, p_z = 0\<rparr>"

text \<open>The marker on the wire: \<open>0xdeadbeef\<close> in four bytes, least significant first.\<close>

definition marker_bytes :: "byte list" where
  "marker_bytes = [0xEF, 0xBE, 0xAD, 0xDE]"

text \<open>
  The unsigned 32-bit little-endian integer that the four bytes from index \<open>i\<close> on
  spell, written out byte by byte.
\<close>

definition u32_le_at :: "byte list \<Rightarrow> nat \<Rightarrow> int" where
  "u32_le_at bs i =
     uint (bs ! i) + 2 ^ 8 * uint (bs ! (i + 1)) + 2 ^ 16 * uint (bs ! (i + 2))
       + 2 ^ 24 * uint (bs ! (i + 3))"

text \<open>The three values that a payload of twelve bytes spells.\<close>

definition payload_values :: "byte list \<Rightarrow> line" where
  "payload_values bs = (u32_le_at bs 0, u32_le_at bs 4, u32_le_at bs 8)"

text \<open>Bit \<open>b\<close> of byte \<open>i\<close> flipped.\<close>

definition flip_bit_at :: "nat \<Rightarrow> nat \<Rightarrow> byte list \<Rightarrow> byte list" where
  "flip_bit_at i b bs = bs[i := flip_bit b (bs ! i)]"

text \<open>
  A packet object as \<open>main\<close> keeps it: the configuration that the constructor gave it,
  whatever its fields \<open>x\<close>, \<open>y\<close>, \<open>z\<close> hold.
\<close>

definition configured :: "Packet \<Rightarrow> bool" where
  "configured p \<longleftrightarrow> p_marker p = main_marker \<and> p_format p = ''<III'' \<and> p_length p = 12"

text \<open>
  Where the loop reads next after a window that it has tested: behind the payload of
  twelve bytes when \<open>sync\<close> accepted the window, right behind the window otherwise.
\<close>

definition seek_end :: "nat \<times> bool \<Rightarrow> nat" where
  "seek_end e = fst e + (if snd e then 16 else 4)"

text \<open>
  A history of tested windows that fits a stream: every window starts at a multiple of
  four, the recorded answer says whether the four bytes at its offset are the marker,
  and each window starts where the one before it has ended.
\<close>

definition seeks_ok :: "byte list \<Rightarrow> (nat \<times> bool) list \<Rightarrow> bool" where
  "seeks_ok stream es \<longleftrightarrow>
     list_all (\<lambda>e. 4 dvd fst e \<and> snd e = (take 4 (drop (fst e) stream) = marker_bytes)) es
     \<and> successively (\<lambda>e f. fst f = seek_end e) es"

section \<open>Auxiliary facts\<close>

lemma field_count_I: "field_count ''<I'' = Inr 1"
  by (simp add: field_count_def)

lemma field_count_III: "field_count ''<III'' = Inr 3"
  by (simp add: field_count_def)

lemma field_count_IIII: "field_count ''<IIII'' = Inr 4"
  by (simp add: field_count_def)

lemma Marker_init_main: "Marker_init 0xdeadbeef ''<I'' = Inr main_marker"
  by (simp add: Marker_init_def calcsize_def field_count_I main_marker_def)

lemma Packet_init_main: "Packet_init 0xdeadbeef ''<I'' = Inr main_packet"
  by (simp add: Packet_init_def Marker_init_main calcsize_def field_count_III main_packet_def)

lemma configured_main_packet: "configured main_packet"
  by (simp add: configured_def main_packet_def)

lemma le_uint_4: "le_uint [a, b, c, d] = uint a + 2 ^ 8 * uint b + 2 ^ 16 * uint c + 2 ^ 24 * uint d"
  by simp

lemma take_4_drop:
  assumes "i + 4 \<le> length bs"
  shows "take 4 (drop i bs) = [bs ! i, bs ! (i + 1), bs ! (i + 2), bs ! (i + 3)]"
  using assms by (auto simp: list_eq_iff_nth_eq nth_Cons' numeral_eq_Suc less_Suc_eq add.commute)

lemma le_uint_window:
  assumes "i + 4 \<le> length bs"
  shows "le_uint (take 4 (drop i bs)) = u32_le_at bs i"
  by (simp only: take_4_drop [OF assms] le_uint_4 u32_le_at_def)

lemma unpack_I:
  assumes "length w = 4"
  shows "unpack ''<I'' w = Inr [u32_le_at w 0]"
  using assms le_uint_window [of 0 w]
  by (simp add: unpack_def field_count_I)

lemma unpack_III:
  assumes "length w = 12"
  shows "unpack ''<III'' w = Inr [u32_le_at w 0, u32_le_at w 4, u32_le_at w 8]"
  using assms le_uint_window [of 0 w] le_uint_window [of 4 w] le_uint_window [of 8 w]
  by (simp add: unpack_def field_count_III numeral_3_eq_3)

lemma unpack_III_wrong_size:
  assumes "length w \<noteq> 12"
  shows "unpack ''<III'' w = Inl StructError"
  using assms by (simp add: unpack_def field_count_III)

lemma Marker_sync_main:
  assumes "length w = 4"
  shows "Marker_sync main_marker w = Inr (u32_le_at w 0 = 0xdeadbeef)"
  using assms by (auto simp: Marker_sync_def main_marker_def unpack_I)

lemma Packet_deserialize_III:
  assumes "p_format p = ''<III''" and "length w = 12"
  shows "Packet_deserialize p w =
           Inr (p\<lparr>p_x := u32_le_at w 0, p_y := u32_le_at w 4, p_z := u32_le_at w 8\<rparr>)"
  using assms by (simp add: Packet_deserialize_def unpack_III)


lemma Packet_init_format:
  assumes "Packet_init mk marker_format = Inr p"
  shows "p_format p = ''<III''"
  using assms by (auto simp: Packet_init_def split: sum.splits)

lemma Packet_deserialize_format:
  assumes "Packet_deserialize p window = Inr q"
  shows "p_format q = p_format p"
  using assms
  by (auto simp: Packet_deserialize_def split: sum.splits list.splits)

lemma le_uint_inj:
  assumes "length as = length bs" and "le_uint as = le_uint bs"
  shows "as = bs"
  using assms
proof (induction as bs rule: list_induct2)
  case Nil
  then show ?case by simp
next
  case (Cons a as b bs)
  from Cons.prems have eq: "uint a + 256 * le_uint as = uint b + 256 * le_uint bs"
    by simp
  have "(uint a + 256 * le_uint as) mod 256 = uint a"
    using uint_lt2p [of a] by simp
  moreover have "(uint b + 256 * le_uint bs) mod 256 = uint b"
    using uint_lt2p [of b] by simp
  ultimately have "uint a = uint b"
    using eq by simp
  then have "a = b" by (simp add: word_uint_eq_iff)
  moreover from eq \<open>uint a = uint b\<close> have "le_uint as = le_uint bs" by simp
  ultimately show ?case using Cons.IH by simp
qed

lemma le_uint_marker_bytes: "le_uint marker_bytes = 0xdeadbeef"
  by (simp add: marker_bytes_def)

lemma marker_window_iff:
  assumes "4 \<le> length bs"
  shows "u32_le_at bs 0 = 0xdeadbeef \<longleftrightarrow> take 4 bs = marker_bytes"
proof -
  have "u32_le_at bs 0 = le_uint (take 4 bs)"
    using assms le_uint_window [of 0 bs] by simp
  moreover have "length (take 4 bs) = length marker_bytes"
    using assms by (simp add: marker_bytes_def)
  ultimately show ?thesis
    using le_uint_inj [of "take 4 bs" marker_bytes] le_uint_marker_bytes by auto
qed

lemma u32_le_at_take:
  assumes "i + 4 \<le> n"
  shows "u32_le_at (take n bs) i = u32_le_at bs i"
  using assms by (simp add: u32_le_at_def)

lemma Marker_sync_window:
  assumes "length win = 4"
  shows "Marker_sync main_marker win = Inr (win = marker_bytes)"
  using assms marker_window_iff [of win] by (simp add: Marker_sync_main)

lemma Marker_sync_marker_bytes: "Marker_sync main_marker marker_bytes = Inr True"
  using Marker_sync_window [of marker_bytes] by (simp add: marker_bytes_def)

lemma iteration_blocked:
  assumes "heap w = [p]" and "configured p" and "length (pending w) < 4"
  shows "iteration 0 w = Stop Blocked w"
  using assms
  by (simp add: iteration_def lookup_def configured_def main_marker_def read_def)

lemma iteration_reject:
  assumes "heap w = [p]" and "configured p" and "4 \<le> length (pending w)"
    and "take 4 (pending w) \<noteq> marker_bytes"
  shows "iteration 0 w =
           Continue (w\<lparr>pending := drop 4 (pending w), consumed := consumed w + 4,
                       seeks := seeks w @ [(consumed w, False)]\<rparr>)"
proof -
  have "Marker_sync (p_marker p) (take 4 (pending w)) = Inr False"
    using assms by (simp add: configured_def Marker_sync_window)
  moreover have "m_length (p_marker p) = 4"
    using assms by (simp add: configured_def main_marker_def)
  ultimately show ?thesis
    using assms by (simp add: iteration_def lookup_def read_def Let_def)
qed

lemma iteration_accept_blocked:
  assumes "heap w = [p]" and "configured p" and "4 \<le> length (pending w)"
    and "take 4 (pending w) = marker_bytes" and "length (pending w) < 16"
  shows "iteration 0 w =
           Stop Blocked (w\<lparr>pending := drop 4 (pending w), consumed := consumed w + 4,
                           seeks := seeks w @ [(consumed w, True)]\<rparr>)"
proof -
  have "Marker_sync (p_marker p) (take 4 (pending w)) = Inr True"
    using assms by (simp add: configured_def Marker_sync_marker_bytes)
  moreover have "m_length (p_marker p) = 4" and "p_length p = 12"
    using assms by (simp_all add: configured_def main_marker_def)
  moreover have "\<not> 12 \<le> length (pending w) - 4"
    using assms by arith
  ultimately show ?thesis
    using assms by (simp add: iteration_def lookup_def read_def Let_def)
qed

lemma iteration_accept:
  assumes "heap w = [p]" and "configured p" and "16 \<le> length (pending w)"
    and "take 4 (pending w) = marker_bytes"
  shows "iteration 0 w =
           Continue (w\<lparr>pending := drop 16 (pending w), consumed := consumed w + 16,
                       seeks := seeks w @ [(consumed w, True)],
                       heap := [p\<lparr>p_x := u32_le_at (pending w) 4,
                                  p_y := u32_le_at (pending w) 8,
                                  p_z := u32_le_at (pending w) 12\<rparr>],
                       console := console w @
                         [(u32_le_at (pending w) 4, u32_le_at (pending w) 8,
                           u32_le_at (pending w) 12)]\<rparr>)"
proof -
  let ?pay = "take 12 (drop 4 (pending w))"
  have "Marker_sync (p_marker p) (take 4 (pending w)) = Inr True"
    using assms by (simp add: configured_def Marker_sync_marker_bytes)
  moreover have "m_length (p_marker p) = 4" and "p_length p = 12"
    using assms by (simp_all add: configured_def main_marker_def)
  moreover have "length ?pay = 12"
    using assms by simp
  then have "Packet_deserialize p ?pay =
      Inr (p\<lparr>p_x := u32_le_at ?pay 0, p_y := u32_le_at ?pay 4, p_z := u32_le_at ?pay 8\<rparr>)"
    using assms by (simp add: Packet_deserialize_III configured_def)
  moreover have "u32_le_at ?pay 0 = u32_le_at (pending w) 4"
    and "u32_le_at ?pay 4 = u32_le_at (pending w) 8"
    and "u32_le_at ?pay 8 = u32_le_at (pending w) 12"
    using assms by (simp_all add: u32_le_at_def)
  ultimately show ?thesis
    using assms by (simp add: iteration_def lookup_def read_def Let_def Packet_log_def add.commute)
qed


lemma main_loop_blocked:
  assumes "heap w = [p]" and "configured p" and "length (pending w) < 4"
  shows "main_loop 0 w = (Blocked, w)"
  by (subst main_loop.simps) (simp add: iteration_blocked [OF assms])

lemma main_loop_reject:
  assumes "heap w = [p]" and "configured p" and "4 \<le> length (pending w)"
    and "take 4 (pending w) \<noteq> marker_bytes"
  shows "main_loop 0 w =
           main_loop 0 (w\<lparr>pending := drop 4 (pending w), consumed := consumed w + 4,
                           seeks := seeks w @ [(consumed w, False)]\<rparr>)"
  by (subst main_loop.simps) (simp add: iteration_reject [OF assms])

lemma main_loop_accept_blocked:
  assumes "heap w = [p]" and "configured p" and "4 \<le> length (pending w)"
    and "take 4 (pending w) = marker_bytes" and "length (pending w) < 16"
  shows "main_loop 0 w =
           (Blocked, w\<lparr>pending := drop 4 (pending w), consumed := consumed w + 4,
                        seeks := seeks w @ [(consumed w, True)]\<rparr>)"
  by (subst main_loop.simps) (simp add: iteration_accept_blocked [OF assms])

lemma main_loop_accept:
  assumes "heap w = [p]" and "configured p" and "16 \<le> length (pending w)"
    and "take 4 (pending w) = marker_bytes"
  shows "main_loop 0 w =
           main_loop 0
             (w\<lparr>pending := drop 16 (pending w), consumed := consumed w + 16,
                 seeks := seeks w @ [(consumed w, True)],
                 heap := [p\<lparr>p_x := u32_le_at (pending w) 4,
                            p_y := u32_le_at (pending w) 8,
                            p_z := u32_le_at (pending w) 12\<rparr>],
                 console := console w @
                   [(u32_le_at (pending w) 4, u32_le_at (pending w) 8,
                     u32_le_at (pending w) 12)]\<rparr>)"
  by (subst main_loop.simps) (simp add: iteration_accept [OF assms])

lemma main_unfold:
  "main stream =
     main_loop 0 \<lparr>heap = [main_packet], pending = stream, consumed = 0, console = [],
                  seeks = []\<rparr>"
  by (simp add: main_def Packet_new_def Packet_init_main)

lemma length_marker_bytes: "length marker_bytes = 4"
  by (simp add: marker_bytes_def)

lemma u32_le_at_append:
  assumes "length pre = n"
  shows "u32_le_at (pre @ bs) (n + i) = u32_le_at bs i"
  using assms by (simp add: u32_le_at_def nth_append)

lemma main_loop_packet:
  assumes "heap w = [p]" and "configured p" and "pending w = marker_bytes @ payload"
    and "length payload = 12"
  shows "main_loop 0 w =
           (Blocked,
            w\<lparr>pending := [], consumed := consumed w + 16,
              seeks := seeks w @ [(consumed w, True)],
              heap := [p\<lparr>p_x := u32_le_at payload 0, p_y := u32_le_at payload 4,
                         p_z := u32_le_at payload 8\<rparr>],
              console := console w @ [payload_values payload]\<rparr>)"
proof -
  have vals: "u32_le_at (pending w) 4 = u32_le_at payload 0"
    "u32_le_at (pending w) 8 = u32_le_at payload 4"
    "u32_le_at (pending w) 12 = u32_le_at payload 8"
    using assms(3) u32_le_at_append [OF length_marker_bytes, of payload 0]
      u32_le_at_append [OF length_marker_bytes, of payload 4]
      u32_le_at_append [OF length_marker_bytes, of payload 8]
    by simp_all
  have "16 \<le> length (pending w)" and "take 4 (pending w) = marker_bytes"
    and "drop 16 (pending w) = []"
    using assms by (simp_all add: length_marker_bytes)
  then show ?thesis
    using assms(1,2) vals
    by (simp add: main_loop_accept [where p = p]
          main_loop_blocked [where p = "p\<lparr>p_x := u32_le_at payload 0,
            p_y := u32_le_at payload 4, p_z := u32_le_at payload 8\<rparr>"]
          configured_def payload_values_def)
qed

lemma length_le_bytes: "length (le_bytes n v) = n"
  by (induction n arbitrary: v) auto

lemma le_uint_le_bytes:
  assumes "0 \<le> v"
  shows "le_uint (le_bytes n v) = v mod 256 ^ n"
  using assms
proof (induction n arbitrary: v)
  case 0
  then show ?case by simp
next
  case (Suc n)
  have "uint (word_of_int (v mod 256) :: byte) = v mod 256"
    by (simp add: uint_word_of_int take_bit_eq_mod)
  moreover have "le_uint (le_bytes n (v div 256)) = (v div 256) mod 256 ^ n"
    using Suc.prems by (intro Suc.IH) simp
  moreover have "v mod (256 * 256 ^ n) = 256 * (v div 256 mod 256 ^ n) + v mod 256"
    by (simp add: zmod_zmult2_eq)
  ultimately show ?case by simp
qed

lemma le_uint_le_bytes_4:
  assumes "0 \<le> v" and "v < 2 ^ 32"
  shows "le_uint (le_bytes 4 v) = v"
  using assms le_uint_le_bytes [of v 4] by simp

lemma le_bytes_marker: "le_bytes 4 0xdeadbeef = marker_bytes"
  by (simp add: marker_bytes_def numeral_eq_Suc)

lemma u32_le_at_le_bytes:
  assumes "0 \<le> v" and "v < 2 ^ 32" and "length pre = i"
  shows "u32_le_at (pre @ le_bytes 4 v @ post) i = v"
proof -
  let ?bs = "pre @ le_bytes 4 v @ post"
  have "le_uint (take 4 (drop i ?bs)) = u32_le_at ?bs i"
    using assms(3) by (intro le_uint_window) (simp add: length_le_bytes)
  moreover have "take 4 (drop i ?bs) = le_bytes 4 v"
    using assms(3) by (simp add: length_le_bytes)
  ultimately show ?thesis
    using assms(1,2) by (simp only: le_uint_le_bytes_4)
qed

lemma payload_values_le_bytes:
  assumes "0 \<le> x" "x < 2 ^ 32" "0 \<le> y" "y < 2 ^ 32" "0 \<le> z" "z < 2 ^ 32"
  shows "payload_values (le_bytes 4 x @ le_bytes 4 y @ le_bytes 4 z) = (x, y, z)"
proof -
  have "u32_le_at ([] @ le_bytes 4 x @ (le_bytes 4 y @ le_bytes 4 z)) 0 = x"
    using assms by (intro u32_le_at_le_bytes) simp_all
  moreover have "u32_le_at (le_bytes 4 x @ le_bytes 4 y @ le_bytes 4 z) 4 = y"
    using assms by (intro u32_le_at_le_bytes) (simp_all add: length_le_bytes)
  moreover have "u32_le_at ((le_bytes 4 x @ le_bytes 4 y) @ le_bytes 4 z @ []) 8 = z"
    using assms by (intro u32_le_at_le_bytes) (simp_all add: length_le_bytes)
  ultimately show ?thesis
    by (simp add: payload_values_def)
qed

lemma serialize_bytes:
  assumes "0 \<le> x" "x < 2 ^ 32" "0 \<le> y" "y < 2 ^ 32" "0 \<le> z" "z < 2 ^ 32"
  shows "serialize 0xdeadbeef x y z =
           Inr (marker_bytes @ le_bytes 4 x @ le_bytes 4 y @ le_bytes 4 z)"
  using assms by (simp add: serialize_def pack_def field_count_IIII le_bytes_marker)

lemma main_packet_stream:
  assumes "length payload = 12"
  shows "main (marker_bytes @ payload) =
           (Blocked,
            \<lparr>heap = [main_packet\<lparr>p_x := u32_le_at payload 0, p_y := u32_le_at payload 4,
                                  p_z := u32_le_at payload 8\<rparr>],
             pending = [], consumed = 16, console = [payload_values payload],
             seeks = [(0, True)]\<rparr>)"
  using assms
  by (simp add: main_unfold main_loop_packet [where p = main_packet and payload = payload]
        configured_main_packet)

lemma main_loop_resync:
  assumes "\<forall>win\<in>set ws. length win = 4 \<and> win \<noteq> marker_bytes" and "length payload = 12"
    and "heap w = [p]" and "configured p"
    and "pending w = concat ws @ marker_bytes @ payload"
  shows "fst (main_loop 0 w) = Blocked
       \<and> console (snd (main_loop 0 w)) = console w @ [payload_values payload]
       \<and> heap (snd (main_loop 0 w)) =
           [p\<lparr>p_x := u32_le_at payload 0, p_y := u32_le_at payload 4,
              p_z := u32_le_at payload 8\<rparr>]
       \<and> pending (snd (main_loop 0 w)) = []
       \<and> consumed (snd (main_loop 0 w)) = consumed w + 4 * length ws + 16"
  using assms
proof (induction ws arbitrary: w)
  case Nil
  then show ?case
    by (simp add: main_loop_packet [where p = p and payload = payload])
next
  case (Cons win ws)
  let ?w' = "w\<lparr>pending := drop 4 (pending w), consumed := consumed w + 4,
                seeks := seeks w @ [(consumed w, False)]\<rparr>"
  from Cons.prems have win: "length win = 4" "win \<noteq> marker_bytes"
    by simp_all
  with Cons.prems have "4 \<le> length (pending w)" and "take 4 (pending w) \<noteq> marker_bytes"
    by simp_all
  with Cons.prems have loop: "main_loop 0 w = main_loop 0 ?w'"
    by (intro main_loop_reject [where p = p]) simp_all
  have "pending ?w' = concat ws @ marker_bytes @ payload"
    using Cons.prems win by simp
  moreover have "heap ?w' = [p]"
    using Cons.prems by simp
  moreover have "\<forall>win\<in>set ws. length win = 4 \<and> win \<noteq> marker_bytes"
    using Cons.prems by simp
  ultimately have "fst (main_loop 0 ?w') = Blocked
       \<and> console (snd (main_loop 0 ?w')) = console ?w' @ [payload_values payload]
       \<and> heap (snd (main_loop 0 ?w')) =
           [p\<lparr>p_x := u32_le_at payload 0, p_y := u32_le_at payload 4,
              p_z := u32_le_at payload 8\<rparr>]
       \<and> pending (snd (main_loop 0 ?w')) = []
       \<and> consumed (snd (main_loop 0 ?w')) = consumed ?w' + 4 * length ws + 16"
    using Cons.prems(2,4) by (intro Cons.IH)
  then show ?case
    by (simp add: loop)
qed

lemma payload_values_inj:
  assumes "length as = 12" and "length bs = 12" and "payload_values as = payload_values bs"
  shows "as = bs"
proof -
  have "take 4 (drop i as) = take 4 (drop i bs)" if "i \<in> {0, 4, 8}" for i
  proof -
    from that assms have "i + 4 \<le> length as" and "i + 4 \<le> length bs"
      by auto
    then have "le_uint (take 4 (drop i as)) = u32_le_at as i"
      and "le_uint (take 4 (drop i bs)) = u32_le_at bs i"
      by (simp_all only: le_uint_window)
    moreover have "u32_le_at as i = u32_le_at bs i"
      using that assms(3) by (auto simp: payload_values_def)
    ultimately show ?thesis
      using assms(1,2) that by (intro le_uint_inj) auto
  qed
  note window = this
  have split: "take 4 cs @ take 4 (drop 4 cs) @ take 4 (drop 8 cs) = cs"
    if "length cs = 12" for cs :: "byte list"
  proof -
    have "take 4 (drop 8 cs) = drop 8 cs"
      using that by simp
    moreover have "take 4 (drop 4 cs) @ drop 8 cs = drop 4 cs"
      using append_take_drop_id [of 4 "drop 4 cs"] by simp
    ultimately show ?thesis by simp
  qed
  have "as = take 4 as @ take 4 (drop 4 as) @ take 4 (drop 8 as)"
    by (rule split [OF assms(1), symmetric])
  also have "\<dots> = take 4 bs @ take 4 (drop 4 bs) @ take 4 (drop 8 bs)"
    using window [of 0] window [of 4] window [of 8] by simp
  also have "\<dots> = bs"
    by (rule split [OF assms(2)])
  finally show ?thesis .
qed

lemma flip_bit_neq:
  fixes a :: byte
  assumes "b < 8"
  shows "flip_bit b a \<noteq> a"
proof
  assume "flip_bit b a = a"
  then have "bit (flip_bit b a) b = bit a b" by simp
  with assms show False by (simp add: bit_flip_bit_iff)
qed

lemma flip_bit_at_neq:
  assumes "i < length bs" and "b < 8"
  shows "flip_bit_at i b bs \<noteq> bs"
proof
  assume "flip_bit_at i b bs = bs"
  then have "flip_bit_at i b bs ! i = bs ! i" by simp
  with assms show False by (simp add: flip_bit_at_def flip_bit_neq)
qed

lemma seeks_ok_snoc:
  assumes "seeks_ok stream es" and "es \<noteq> [] \<Longrightarrow> seek_end (last es) = c" and "4 dvd c"
    and "b = (take 4 (drop c stream) = marker_bytes)"
  shows "seeks_ok stream (es @ [(c, b)])"
  using assms by (auto simp: seeks_ok_def successively_append_iff)

lemma main_loop_seeks_ok:
  assumes "heap w = [p]" and "configured p"
    and "pending w = drop (consumed w) stream" and "4 dvd consumed w"
    and "seeks_ok stream (seeks w)"
    and "seeks w \<noteq> [] \<Longrightarrow> seek_end (last (seeks w)) = consumed w"
  shows "seeks_ok stream (seeks (snd (main_loop 0 w)))"
  using assms
proof (induction "length (pending w)" arbitrary: w p rule: less_induct)
  case less
  have window: "take 4 (pending w) = take 4 (drop (consumed w) stream)"
    using less.prems(3) by simp
  consider (short) "length (pending w) < 4"
    | (reject) "4 \<le> length (pending w)" "take 4 (pending w) \<noteq> marker_bytes"
    | (starved) "4 \<le> length (pending w)" "take 4 (pending w) = marker_bytes"
        "length (pending w) < 16"
    | (accept) "16 \<le> length (pending w)" "take 4 (pending w) = marker_bytes"
    by linarith
  then show ?case
  proof cases
    case short
    with less.prems show ?thesis
      by (simp add: main_loop_blocked [where p = p])
  next
    case reject
    let ?w' = "w\<lparr>pending := drop 4 (pending w), consumed := consumed w + 4,
                  seeks := seeks w @ [(consumed w, False)]\<rparr>"
    have loop: "main_loop 0 w = main_loop 0 ?w'"
      using less.prems(1,2) reject by (rule main_loop_reject)
    have "seeks_ok stream (seeks ?w')"
      using less.prems(4-6) reject(2) window by (simp add: seeks_ok_snoc)
    moreover have "length (pending ?w') < length (pending w)"
      using reject(1) by simp
    moreover have "pending ?w' = drop (consumed ?w') stream"
      using less.prems(3) by (simp add: add.commute)
    ultimately have "seeks_ok stream (seeks (snd (main_loop 0 ?w')))"
      using less.prems(1,2,4)
      by (intro less.hyps [where p = p]) (simp_all add: seek_end_def)
    then show ?thesis by (simp add: loop)
  next
    case starved
    have "main_loop 0 w =
        (Blocked, w\<lparr>pending := drop 4 (pending w), consumed := consumed w + 4,
                     seeks := seeks w @ [(consumed w, True)]\<rparr>)"
      using less.prems(1,2) starved by (rule main_loop_accept_blocked)
    moreover have "seeks_ok stream (seeks w @ [(consumed w, True)])"
      using less.prems(4-6) starved(2) window by (simp add: seeks_ok_snoc)
    ultimately show ?thesis by simp
  next
    case accept
    let ?p' = "p\<lparr>p_x := u32_le_at (pending w) 4, p_y := u32_le_at (pending w) 8,
                  p_z := u32_le_at (pending w) 12\<rparr>"
    let ?w' = "w\<lparr>pending := drop 16 (pending w), consumed := consumed w + 16,
                  seeks := seeks w @ [(consumed w, True)], heap := [?p'],
                  console := console w @
                    [(u32_le_at (pending w) 4, u32_le_at (pending w) 8,
                      u32_le_at (pending w) 12)]\<rparr>"
    have loop: "main_loop 0 w = main_loop 0 ?w'"
      using less.prems(1,2) accept by (rule main_loop_accept)
    have "seeks_ok stream (seeks ?w')"
      using less.prems(4-6) accept(2) window by (simp add: seeks_ok_snoc)
    moreover have "length (pending ?w') < length (pending w)"
      using accept(1) by simp
    moreover have "pending ?w' = drop (consumed ?w') stream"
      using less.prems(3) by (simp add: add.commute)
    moreover have "configured ?p'"
      using less.prems(2) by (simp add: configured_def)
    ultimately have "seeks_ok stream (seeks (snd (main_loop 0 ?w')))"
      using less.prems(4)
      by (intro less.hyps [where p = ?p']) (simp_all add: seek_end_def)
    then show ?thesis by (simp add: loop)
  qed
qed

lemma main_seeks_ok: "seeks_ok stream (seeks (snd (main stream)))"
  unfolding main_unfold
  by (rule main_loop_seeks_ok [where p = main_packet])
     (simp_all add: configured_main_packet seeks_ok_def)

lemma marker_at:
  assumes "take 4 (drop a bs) = marker_bytes"
  shows "bs ! a = 0xEF \<and> bs ! (a + 1) = 0xBE \<and> bs ! (a + 2) = 0xAD \<and> bs ! (a + 3) = 0xDE"
proof -
  have "length (take 4 (drop a bs)) = 4"
    using assms by (simp add: marker_bytes_def)
  then have "a + 4 \<le> length bs"
    by simp
  then have "take 4 (drop a bs) = [bs ! a, bs ! (a + 1), bs ! (a + 2), bs ! (a + 3)]"
    by (rule take_4_drop)
  with assms show ?thesis
    by (simp add: marker_bytes_def)
qed

lemma marker_no_overlap:
  assumes "take 4 (drop a bs) = marker_bytes" and "take 4 (drop k bs) = marker_bytes"
  shows "a = k \<or> a + 4 \<le> k \<or> k + 4 \<le> a"
proof (rule ccontr)
  assume "\<not> (a = k \<or> a + 4 \<le> k \<or> k + 4 \<le> a)"
  then consider "k = a + 1" | "k = a + 2" | "k = a + 3"
    | "a = k + 1" | "a = k + 2" | "a = k + 3"
    by linarith
  then show False
    using marker_at [OF assms(1)] marker_at [OF assms(2)]
    by cases simp_all
qed

lemma main_loop_one_object:
  assumes "heap w = [p]" and "configured p"
  shows "\<exists>q ls. heap (snd (main_loop 0 w)) = [q] \<and> configured q
              \<and> console (snd (main_loop 0 w)) = console w @ ls
              \<and> (if ls = [] then q = p else Packet_log q = last ls)"
  using assms
proof (induction "length (pending w)" arbitrary: w p rule: less_induct)
  case less
  consider (short) "length (pending w) < 4"
    | (reject) "4 \<le> length (pending w)" "take 4 (pending w) \<noteq> marker_bytes"
    | (starved) "4 \<le> length (pending w)" "take 4 (pending w) = marker_bytes"
        "length (pending w) < 16"
    | (accept) "16 \<le> length (pending w)" "take 4 (pending w) = marker_bytes"
    by linarith
  then show ?case
  proof cases
    case short
    with less.prems show ?thesis
      by (simp add: main_loop_blocked [where p = p])
  next
    case reject
    let ?w' = "w\<lparr>pending := drop 4 (pending w), consumed := consumed w + 4,
                  seeks := seeks w @ [(consumed w, False)]\<rparr>"
    have loop: "main_loop 0 w = main_loop 0 ?w'"
      using less.prems reject by (rule main_loop_reject)
    have "length (pending ?w') < length (pending w)"
      using reject(1) by simp
    then have "\<exists>q ls. heap (snd (main_loop 0 ?w')) = [q] \<and> configured q
              \<and> console (snd (main_loop 0 ?w')) = console ?w' @ ls
              \<and> (if ls = [] then q = p else Packet_log q = last ls)"
      using less.prems by (intro less.hyps) simp_all
    then show ?thesis by (simp add: loop)
  next
    case starved
    have "main_loop 0 w =
        (Blocked, w\<lparr>pending := drop 4 (pending w), consumed := consumed w + 4,
                     seeks := seeks w @ [(consumed w, True)]\<rparr>)"
      using less.prems starved by (rule main_loop_accept_blocked)
    with less.prems show ?thesis by simp
  next
    case accept
    let ?l = "(u32_le_at (pending w) 4, u32_le_at (pending w) 8, u32_le_at (pending w) 12)"
    let ?p' = "p\<lparr>p_x := u32_le_at (pending w) 4, p_y := u32_le_at (pending w) 8,
                  p_z := u32_le_at (pending w) 12\<rparr>"
    let ?w' = "w\<lparr>pending := drop 16 (pending w), consumed := consumed w + 16,
                  seeks := seeks w @ [(consumed w, True)], heap := [?p'],
                  console := console w @ [?l]\<rparr>"
    have loop: "main_loop 0 w = main_loop 0 ?w'"
      using less.prems accept by (rule main_loop_accept)
    have "length (pending ?w') < length (pending w)"
      using accept(1) by simp
    moreover have "configured ?p'"
      using less.prems(2) by (simp add: configured_def)
    ultimately have "\<exists>q ls. heap (snd (main_loop 0 ?w')) = [q] \<and> configured q
              \<and> console (snd (main_loop 0 ?w')) = console ?w' @ ls
              \<and> (if ls = [] then q = ?p' else Packet_log q = last ls)"
      by (intro less.hyps) simp_all
    then obtain q ls where q: "heap (snd (main_loop 0 ?w')) = [q]" "configured q"
      "console (snd (main_loop 0 ?w')) = console w @ ?l # ls"
      "if ls = [] then q = ?p' else Packet_log q = last ls"
      by auto
    have "if ?l # ls = [] then q = p else Packet_log q = last (?l # ls)"
      using q(4) by (auto simp: Packet_log_def)
    with q(1-3) show ?thesis
      unfolding loop by blast
  qed
qed

section \<open>The properties\<close>

text \<open>
  C1. For all \<open>x\<close>, \<open>y\<close>, \<open>z\<close> in the range of an unsigned 32-bit integer, the sender's
  \<open>serialize\<close> gives the sixteen bytes marker, \<open>x\<close>, \<open>y\<close>, \<open>z\<close>, four bytes each and
  least significant byte first, and \<open>main\<close> on these bytes prints exactly one line, with
  the values \<open>x\<close>, \<open>y\<close>, \<open>z\<close>, before it waits for more bytes. In particular the bytes
  \<open>EF BE AD DE AA 00 00 00 BB 00 00 00 CC 00 00 00\<close> give the one line \<open>0xaa, 0xbb, 0xcc\<close>.
\<close>

theorem round_trip:
  assumes "0 \<le> x" "x < 2 ^ 32" "0 \<le> y" "y < 2 ^ 32" "0 \<le> z" "z < 2 ^ 32"
  shows "serialize 0xdeadbeef x y z =
           Inr (le_bytes 4 0xdeadbeef @ le_bytes 4 x @ le_bytes 4 y @ le_bytes 4 z)
       \<and> fst (main (le_bytes 4 0xdeadbeef @ le_bytes 4 x @ le_bytes 4 y @ le_bytes 4 z))
           = Blocked
       \<and> console (snd (main (le_bytes 4 0xdeadbeef @ le_bytes 4 x @ le_bytes 4 y
           @ le_bytes 4 z))) = [(x, y, z)]
       \<and> console (snd (main [0xEF, 0xBE, 0xAD, 0xDE, 0xAA, 0, 0, 0, 0xBB, 0, 0, 0,
           0xCC, 0, 0, 0])) = [(0xAA, 0xBB, 0xCC)]"
proof -
  let ?payload = "le_bytes 4 x @ le_bytes 4 y @ le_bytes 4 z"
  have len: "length ?payload = 12"
    by (simp add: length_le_bytes)
  have "main (marker_bytes @ ?payload) =
          (Blocked,
           \<lparr>heap = [main_packet\<lparr>p_x := u32_le_at ?payload 0, p_y := u32_le_at ?payload 4,
                                 p_z := u32_le_at ?payload 8\<rparr>],
            pending = [], consumed = 16, console = [payload_values ?payload],
            seeks = [(0, True)]\<rparr>)"
    using len by (rule main_packet_stream)
  moreover have "console (snd (main [0xEF, 0xBE, 0xAD, 0xDE, 0xAA, 0, 0, 0, 0xBB, 0, 0, 0,
      0xCC, 0, 0, 0])) = [(0xAA, 0xBB, 0xCC)]"
    using main_packet_stream [of "[0xAA, 0, 0, 0, 0xBB, 0, 0, 0, 0xCC, 0, 0, 0]"]
    by (simp add: marker_bytes_def payload_values_def u32_le_at_def)
  ultimately show ?thesis
    using assms
    by (simp only: serialize_bytes payload_values_le_bytes le_bytes_marker) simp
qed

theorem round_trip_witness:
  "(0 :: int) \<le> 0x12345678 \<and> (0x12345678 :: int) < 2 ^ 32
   \<and> (0 :: int) \<le> 0 \<and> (0 :: int) < 2 ^ 32
   \<and> (0 :: int) \<le> 0xFFFFFFFF \<and> (0xFFFFFFFF :: int) < 2 ^ 32
   \<and> serialize 0xdeadbeef 0x12345678 0 0xFFFFFFFF =
       Inr [0xEF, 0xBE, 0xAD, 0xDE, 0x78, 0x56, 0x34, 0x12, 0, 0, 0, 0,
            0xFF, 0xFF, 0xFF, 0xFF]
   \<and> console (snd (main [0xEF, 0xBE, 0xAD, 0xDE, 0x78, 0x56, 0x34, 0x12, 0, 0, 0, 0,
            0xFF, 0xFF, 0xFF, 0xFF])) = [(0x12345678, 0, 0xFFFFFFFF)]"
  using round_trip [of "0x12345678" 0 "0xFFFFFFFF"]
  by (simp add: numeral_eq_Suc)

text \<open>
  C2. For every window of four bytes, \<open>Marker.sync\<close> of the marker that \<open>main\<close>
  constructs answers true exactly when the unsigned 32-bit little-endian value of the
  window is \<open>0xdeadbeef\<close>, and false for every other window, the all-zero and the
  all-ones window among them.
\<close>

theorem marker_selectivity:
  assumes "length window = 4"
  shows "Marker_init 0xdeadbeef ''<I'' = Inr main_marker
       \<and> Marker_sync main_marker window = Inr (u32_le_at window 0 = 0xdeadbeef)
       \<and> Marker_sync main_marker [0, 0, 0, 0] = Inr False
       \<and> Marker_sync main_marker [0xFF, 0xFF, 0xFF, 0xFF] = Inr False"
proof -
  have "Marker_sync main_marker [0, 0, 0, 0] = Inr False"
    by (simp add: Marker_sync_main u32_le_at_def)
  moreover have "Marker_sync main_marker [0xFF, 0xFF, 0xFF, 0xFF] = Inr False"
    by (simp add: Marker_sync_main u32_le_at_def)
  ultimately show ?thesis
    using assms by (simp add: Marker_init_main Marker_sync_main)
qed

theorem marker_selectivity_witness:
  "length [0xEF, 0xBE, 0xAD, 0xDE :: byte] = 4
   \<and> Marker_sync main_marker [0xEF, 0xBE, 0xAD, 0xDE] = Inr True
   \<and> Marker_sync main_marker [0xEF, 0xBE, 0xAD, 0xDF] = Inr False"
  using marker_selectivity [of "[0xEF, 0xBE, 0xAD, 0xDE]"]
    marker_selectivity [of "[0xEF, 0xBE, 0xAD, 0xDF]"]
  by (simp add: u32_le_at_def)

text \<open>
  C3. The loop tests windows of four bytes that do not overlap: after a window that
  \<open>sync\<close> rejects, the next window starts right behind it, so every tested window starts
  at a multiple of four. Hence a marker that starts at an offset \<open>k\<close> that is not a
  multiple of four is never detected: no window is tested at \<open>k\<close>, and no window that
  \<open>sync\<close> accepts overlaps the four bytes of that marker.
\<close>

theorem unaligned_marker_not_detected:
  assumes "k mod 4 \<noteq> 0" and "take 4 (drop k stream) = marker_bytes"
  shows "(\<forall>e\<in>set (seeks (snd (main stream))).
            4 dvd fst e \<and> fst e \<noteq> k \<and> (snd e \<longrightarrow> fst e + 4 \<le> k \<or> k + 4 \<le> fst e))
       \<and> successively (\<lambda>e f. fst f = seek_end e) (seeks (snd (main stream)))"
proof -
  have ok: "seeks_ok stream (seeks (snd (main stream)))"
    by (rule main_seeks_ok)
  have "4 dvd fst e \<and> fst e \<noteq> k \<and> (snd e \<longrightarrow> fst e + 4 \<le> k \<or> k + 4 \<le> fst e)"
    if "e \<in> set (seeks (snd (main stream)))" for e
  proof -
    from ok that have al: "4 dvd fst e"
      and mk: "snd e = (take 4 (drop (fst e) stream) = marker_bytes)"
      by (auto simp: seeks_ok_def list_all_iff)
    from al assms(1) have ne: "fst e \<noteq> k"
      by auto
    have "fst e + 4 \<le> k \<or> k + 4 \<le> fst e" if "snd e"
      using that mk ne marker_no_overlap [OF _ assms(2), of "fst e"] by auto
    with al ne show ?thesis by simp
  qed
  with ok show ?thesis
    by (simp add: seeks_ok_def)
qed

theorem unaligned_marker_not_detected_witness:
  "(1 :: nat) mod 4 \<noteq> 0
   \<and> take 4 (drop 1 [0, 0xEF, 0xBE, 0xAD, 0xDE, 0xAA, 0, 0, 0, 0xBB, 0, 0, 0, 0xCC, 0, 0, 0])
       = marker_bytes
   \<and> seeks (snd (main [0, 0xEF, 0xBE, 0xAD, 0xDE, 0xAA, 0, 0, 0, 0xBB, 0, 0, 0, 0xCC, 0, 0, 0]))
       = [(0, False), (4, False), (8, False), (12, False)]
   \<and> console (snd (main [0, 0xEF, 0xBE, 0xAD, 0xDE, 0xAA, 0, 0, 0, 0xBB, 0, 0, 0, 0xCC, 0, 0, 0]))
       = []
   \<and> successively (\<lambda>e f. fst f = seek_end e)
       (seeks (snd (main
          [0, 0xEF, 0xBE, 0xAD, 0xDE, 0xAA, 0, 0, 0, 0xBB, 0, 0, 0, 0xCC, 0, 0, 0])))"
proof -
  let ?s = "[0, 0xEF, 0xBE, 0xAD, 0xDE, 0xAA, 0, 0, 0, 0xBB, 0, 0, 0, 0xCC, 0, 0, 0] :: byte list"
  have k: "(1 :: nat) mod 4 \<noteq> 0"
    by simp
  have m: "take 4 (drop 1 ?s) = marker_bytes"
    by (simp add: marker_bytes_def)
  have run: "seeks (snd (main ?s)) = [(0, False), (4, False), (8, False), (12, False)]"
    "console (snd (main ?s)) = []"
    by code_simp+
  show ?thesis
    using k m run unaligned_marker_not_detected [OF k m]
    by simp
qed

text \<open>
  C4. For every number of windows of four bytes that \<open>sync\<close> rejects, followed by the
  marker and a payload of twelve bytes, \<open>main\<close> prints exactly one line, and the line
  holds the values of the payload: it is the line that the packet alone gives, whatever
  the rejected windows were.
\<close>

theorem resync_discards_windows:
  assumes "\<forall>win\<in>set windows. length win = 4 \<and> Marker_sync main_marker win = Inr False"
    and "length payload = 12"
  shows "fst (main (concat windows @ marker_bytes @ payload)) = Blocked
       \<and> console (snd (main (concat windows @ marker_bytes @ payload))) =
           [payload_values payload]
       \<and> console (snd (main (concat windows @ marker_bytes @ payload))) =
           console (snd (main (marker_bytes @ payload)))"
proof -
  let ?w = "\<lparr>heap = [main_packet], pending = concat windows @ marker_bytes @ payload,
             consumed = 0, console = [], seeks = []\<rparr>"
  have "\<forall>win\<in>set windows. length win = 4 \<and> win \<noteq> marker_bytes"
    using assms(1) by (auto simp: Marker_sync_window)
  then have "fst (main_loop 0 ?w) = Blocked
       \<and> console (snd (main_loop 0 ?w)) = console ?w @ [payload_values payload]
       \<and> heap (snd (main_loop 0 ?w)) =
           [main_packet\<lparr>p_x := u32_le_at payload 0, p_y := u32_le_at payload 4,
              p_z := u32_le_at payload 8\<rparr>]
       \<and> pending (snd (main_loop 0 ?w)) = []
       \<and> consumed (snd (main_loop 0 ?w)) = consumed ?w + 4 * length windows + 16"
    using assms(2) by (intro main_loop_resync) (simp_all add: configured_main_packet)
  then show ?thesis
    using assms(2) by (simp add: main_unfold [symmetric] main_packet_stream)
qed

theorem resync_discards_windows_witness:
  "length [0, 0, 0, 0 :: byte] = 4 \<and> Marker_sync main_marker [0, 0, 0, 0] = Inr False
   \<and> length [0xDE, 0xAD, 0xBE, 0xEF :: byte] = 4
   \<and> Marker_sync main_marker [0xDE, 0xAD, 0xBE, 0xEF] = Inr False
   \<and> length [0xFF, 0xEF, 0xBE, 0xAD :: byte] = 4
   \<and> Marker_sync main_marker [0xFF, 0xEF, 0xBE, 0xAD] = Inr False
   \<and> length [0xAA, 0, 0, 0, 0xBB, 0, 0, 0, 0xCC, 0, 0, 0 :: byte] = 12
   \<and> console (snd (main (concat [[0, 0, 0, 0], [0xDE, 0xAD, 0xBE, 0xEF], [0xFF, 0xEF, 0xBE, 0xAD]]
        @ marker_bytes @ [0xAA, 0, 0, 0, 0xBB, 0, 0, 0, 0xCC, 0, 0, 0]))) = [(0xAA, 0xBB, 0xCC)]"
proof -
  have h: "\<forall>win\<in>set [[0, 0, 0, 0], [0xDE, 0xAD, 0xBE, 0xEF], [0xFF, 0xEF, 0xBE, 0xAD]].
      length win = 4 \<and> Marker_sync main_marker win = Inr False"
    by (simp add: Marker_sync_window marker_bytes_def)
  have l: "length [0xAA, 0, 0, 0, 0xBB, 0, 0, 0, 0xCC, 0, 0, 0 :: byte] = 12"
    by simp
  show ?thesis
    using h resync_discards_windows [OF h l]
    by (simp add: payload_values_def u32_le_at_def)
qed

text \<open>
  C5. For every window of twelve bytes, \<open>Packet.deserialize\<close> decodes three consecutive
  chunks of four bytes, each as an unsigned 32-bit little-endian integer, and assigns
  bytes 0 to 3 to \<open>x\<close>, bytes 4 to 7 to \<open>y\<close> and bytes 8 to 11 to \<open>z\<close>.
\<close>

theorem deserialize_fields:
  assumes "p_format p = ''<III''" and "length window = 12"
  shows "Packet_deserialize p window =
           Inr (p\<lparr>p_x := u32_le_at window 0, p_y := u32_le_at window 4,
                  p_z := u32_le_at window 8\<rparr>)"
  using assms by (rule Packet_deserialize_III)

theorem deserialize_fields_witness:
  "p_format main_packet = ''<III''
   \<and> length [0x78, 0x56, 0x34, 0x12, 1, 0, 0, 0, 0, 0, 0, 0x80 :: byte] = 12
   \<and> Packet_deserialize main_packet [0x78, 0x56, 0x34, 0x12, 1, 0, 0, 0, 0, 0, 0, 0x80] =
       Inr (main_packet\<lparr>p_x := 0x12345678, p_y := 1, p_z := 0x80000000\<rparr>)"
  using deserialize_fields [of main_packet "[0x78, 0x56, 0x34, 0x12, 1, 0, 0, 0, 0, 0, 0, 0x80]"]
  by (simp add: main_packet_def u32_le_at_def)

text \<open>
  C6, as the code has it. \<open>Packet.deserialize\<close> is not free of side effects: it returns
  nothing and assigns to the object it is called on. The packet that \<open>main\<close> has
  constructed is a different value after the call, and it is a different value in the
  store after \<open>main\<close> has run.
\<close>

theorem deserialize_mutates_packet:
  "Packet_deserialize main_packet [0xAA, 0, 0, 0, 0xBB, 0, 0, 0, 0xCC, 0, 0, 0] =
     Inr (main_packet\<lparr>p_x := 0xAA, p_y := 0xBB, p_z := 0xCC\<rparr>)
   \<and> main_packet\<lparr>p_x := 0xAA, p_y := 0xBB, p_z := 0xCC\<rparr> \<noteq> main_packet
   \<and> heap (snd (main [0xEF, 0xBE, 0xAD, 0xDE, 0xAA, 0, 0, 0, 0xBB, 0, 0, 0, 0xCC, 0, 0, 0])) =
       [main_packet\<lparr>p_x := 0xAA, p_y := 0xBB, p_z := 0xCC\<rparr>]"
proof -
  have "Packet_deserialize main_packet [0xAA, 0, 0, 0, 0xBB, 0, 0, 0, 0xCC, 0, 0, 0] =
      Inr (main_packet\<lparr>p_x := 0xAA, p_y := 0xBB, p_z := 0xCC\<rparr>)"
    by (simp add: Packet_deserialize_III main_packet_def u32_le_at_def)
  moreover have "main_packet\<lparr>p_x := 0xAA, p_y := 0xBB, p_z := 0xCC\<rparr> \<noteq> main_packet"
    by (simp add: main_packet_def)
  moreover have
    "heap (snd (main [0xEF, 0xBE, 0xAD, 0xDE, 0xAA, 0, 0, 0, 0xBB, 0, 0, 0, 0xCC, 0, 0, 0])) =
       [main_packet\<lparr>p_x := 0xAA, p_y := 0xBB, p_z := 0xCC\<rparr>]"
    using main_packet_stream [of "[0xAA, 0, 0, 0, 0xBB, 0, 0, 0, 0xCC, 0, 0, 0]"]
    by (simp add: marker_bytes_def u32_le_at_def)
  ultimately show ?thesis by blast
qed

text \<open>
  C6, amended. On every window of twelve bytes the call succeeds, its only
  effect is on the fields \<open>x\<close>, \<open>y\<close>, \<open>z\<close> of the object it is called on, which get
  the three values of the window, and the marker, the format and the length of the
  object stay as they were.
\<close>

theorem deserialize_frame:
  assumes "p_format p = ''<III''" and "length window = 12"
  shows "\<exists>q. Packet_deserialize p window = Inr q
           \<and> p_marker q = p_marker p \<and> p_format q = p_format p \<and> p_length q = p_length p
           \<and> (p_x q, p_y q, p_z q) = payload_values window"
  using assms by (simp add: Packet_deserialize_III payload_values_def)

theorem deserialize_frame_witness:
  "p_format main_packet = ''<III''
   \<and> length [0xAA, 0, 0, 0, 0xBB, 0, 0, 0, 0xCC, 0, 0, 0 :: byte] = 12
   \<and> (\<exists>q. Packet_deserialize main_packet [0xAA, 0, 0, 0, 0xBB, 0, 0, 0, 0xCC, 0, 0, 0] = Inr q
         \<and> p_marker q = main_marker \<and> p_format q = ''<III'' \<and> p_length q = 12
         \<and> (p_x q, p_y q, p_z q) = (0xAA, 0xBB, 0xCC))"
  using deserialize_frame [of main_packet "[0xAA, 0, 0, 0, 0xBB, 0, 0, 0, 0xCC, 0, 0, 0]"]
  by (simp add: main_packet_def payload_values_def u32_le_at_def)

text \<open>
  C7, as the code has it. On a stream of two packets \<open>main\<close> prints two lines, yet the
  store holds a single \<open>Packet\<close> object: the second pass has decoded into the object of
  the first pass and overwritten its values. That object also holds the marker.
\<close>

theorem packet_object_reused:
  "console (snd (main [0xEF, 0xBE, 0xAD, 0xDE, 0xAA, 0, 0, 0, 0xBB, 0, 0, 0, 0xCC, 0, 0, 0,
                       0xEF, 0xBE, 0xAD, 0xDE, 1, 0, 0, 0, 2, 0, 0, 0, 3, 0, 0, 0]))
     = [(0xAA, 0xBB, 0xCC), (1, 2, 3)]
   \<and> map Packet_log
       (heap (snd (main [0xEF, 0xBE, 0xAD, 0xDE, 0xAA, 0, 0, 0, 0xBB, 0, 0, 0, 0xCC, 0, 0, 0,
                         0xEF, 0xBE, 0xAD, 0xDE, 1, 0, 0, 0, 2, 0, 0, 0, 3, 0, 0, 0])))
     = [(1, 2, 3)]
   \<and> map p_marker
       (heap (snd (main [0xEF, 0xBE, 0xAD, 0xDE, 0xAA, 0, 0, 0, 0xBB, 0, 0, 0, 0xCC, 0, 0, 0,
                         0xEF, 0xBE, 0xAD, 0xDE, 1, 0, 0, 0, 2, 0, 0, 0, 3, 0, 0, 0])))
     = [\<lparr>m_marker = 0xdeadbeef, m_format = ''<I'', m_length = 4\<rparr>]"
  by code_simp

text \<open>
  C7, amended. A \<open>Packet\<close> holds \<open>x\<close>, \<open>y\<close>, \<open>z\<close> and, besides them, its marker,
  format and length, and no bytes. \<open>main\<close> constructs one \<open>Packet\<close> before the loop and
  every pass decodes into it: after any run the store holds exactly one object, with
  the configuration that the constructor gave it, and its \<open>x\<close>, \<open>y\<close>, \<open>z\<close> are those
  of the last line printed, or the constructor's zeros when nothing was printed.
\<close>

theorem one_packet_object:
  "\<exists>q. heap (snd (main stream)) = [q]
      \<and> p_marker q = main_marker \<and> p_format q = ''<III'' \<and> p_length q = 12
      \<and> (if console (snd (main stream)) = [] then q = main_packet
          else Packet_log q = last (console (snd (main stream))))"
proof -
  let ?w = "\<lparr>heap = [main_packet], pending = stream, consumed = 0, console = [],
             seeks = []\<rparr>"
  have "\<exists>q ls. heap (snd (main_loop 0 ?w)) = [q] \<and> configured q
              \<and> console (snd (main_loop 0 ?w)) = console ?w @ ls
              \<and> (if ls = [] then q = main_packet else Packet_log q = last ls)"
    by (rule main_loop_one_object) (simp_all add: configured_main_packet)
  then show ?thesis
    by (auto simp: main_unfold configured_def)
qed

theorem one_packet_object_witness:
  "\<exists>q. heap (snd (main [0xEF, 0xBE, 0xAD, 0xDE, 0xAA, 0, 0, 0, 0xBB, 0, 0, 0, 0xCC, 0, 0, 0,
                         0xEF, 0xBE, 0xAD, 0xDE, 1, 0, 0, 0, 2, 0, 0, 0, 3, 0, 0, 0])) = [q]
      \<and> p_marker q = main_marker \<and> Packet_log q = (1, 2, 3)"
proof -
  let ?s = "[0xEF, 0xBE, 0xAD, 0xDE, 0xAA, 0, 0, 0, 0xBB, 0, 0, 0, 0xCC, 0, 0, 0,
             0xEF, 0xBE, 0xAD, 0xDE, 1, 0, 0, 0, 2, 0, 0, 0, 3, 0, 0, 0] :: byte list"
  have "console (snd (main ?s)) = [(0xAA, 0xBB, 0xCC), (1, 2, 3)]"
    by code_simp
  then show ?thesis
    using one_packet_object [of ?s] by auto
qed

text \<open>
  C8. \<open>Packet.deserialize\<close> fails exactly when the window is not twelve bytes long, and
  then with \<open>struct.error\<close>, the exception that the specification calls LayoutError, and
  with the object untouched; on every window of twelve bytes it succeeds.
\<close>

theorem deserialize_fails_iff_wrong_length:
  assumes "p_format p = ''<III''"
  shows "(Packet_deserialize p window = Inl (StructError, p) \<longleftrightarrow> length window \<noteq> 12)
       \<and> ((\<exists>e. Packet_deserialize p window = Inl e) \<longleftrightarrow> length window \<noteq> 12)
       \<and> ((\<exists>p'. Packet_deserialize p window = Inr p') \<longleftrightarrow> length window = 12)"
proof (cases "length window = 12")
  case True
  with assms show ?thesis by (simp add: Packet_deserialize_III)
next
  case False
  with assms show ?thesis
    by (simp add: Packet_deserialize_def unpack_III_wrong_size)
qed

theorem deserialize_fails_iff_wrong_length_witness:
  "p_format main_packet = ''<III''
   \<and> Packet_deserialize main_packet [1, 2, 3, 4, 5, 6, 7, 8, 9, 10, 11] =
       Inl (StructError, main_packet)
   \<and> (\<exists>p'. Packet_deserialize main_packet [1, 2, 3, 4, 5, 6, 7, 8, 9, 10, 11, 12] = Inr p')"
  using deserialize_fails_iff_wrong_length [of main_packet "[1, 2, 3, 4, 5, 6, 7, 8, 9, 10, 11]"]
    deserialize_fails_iff_wrong_length [of main_packet "[1, 2, 3, 4, 5, 6, 7, 8, 9, 10, 11, 12]"]
  by (simp add: main_packet_def)

text \<open>
  C9. For every packet of marker and twelve payload bytes and every flip of one bit in
  one payload byte, \<open>main\<close> still decodes without an exception and prints one line,
  which holds the values of the corrupted payload; they differ from the values of the
  original payload.
\<close>

theorem no_checksum:
  assumes "length payload = 12" and "i < 12" and "b < 8"
  shows "fst (main (marker_bytes @ flip_bit_at i b payload)) = Blocked
       \<and> console (snd (main (marker_bytes @ flip_bit_at i b payload))) =
           [payload_values (flip_bit_at i b payload)]
       \<and> payload_values (flip_bit_at i b payload) \<noteq> payload_values payload"
proof -
  have len: "length (flip_bit_at i b payload) = 12"
    using assms(1) by (simp add: flip_bit_at_def)
  have "flip_bit_at i b payload \<noteq> payload"
    using assms by (intro flip_bit_at_neq) simp_all
  then have "payload_values (flip_bit_at i b payload) \<noteq> payload_values payload"
    using payload_values_inj [OF len assms(1)] by blast
  then show ?thesis
    by (simp add: main_packet_stream [OF len])
qed

theorem no_checksum_witness:
  "length [0xAA, 0, 0, 0, 0xBB, 0, 0, 0, 0xCC, 0, 0, 0 :: byte] = 12 \<and> (5 :: nat) < 12
   \<and> (7 :: nat) < 8
   \<and> flip_bit_at 5 7 [0xAA, 0, 0, 0, 0xBB, 0, 0, 0, 0xCC, 0, 0, 0]
       = [0xAA, 0, 0, 0, 0xBB, 0x80, 0, 0, 0xCC, 0, 0, 0]
   \<and> console (snd (main (marker_bytes @ [0xAA, 0, 0, 0, 0xBB, 0x80, 0, 0, 0xCC, 0, 0, 0])))
       = [(0xAA, 0x80BB, 0xCC)]"
proof -
  have f: "flip_bit_at 5 7 [0xAA, 0, 0, 0, 0xBB, 0, 0, 0, 0xCC, 0, 0, 0]
       = [0xAA, 0, 0, 0, 0xBB, 0x80, 0, 0, 0xCC, 0, 0, 0]"
    by (simp add: flip_bit_at_def flip_bit_eq_xor)
  show ?thesis
    using no_checksum [of "[0xAA, 0, 0, 0, 0xBB, 0, 0, 0, 0xCC, 0, 0, 0]" 5 7]
    by (simp add: f payload_values_def u32_le_at_def)
qed

text \<open>
  C10. For every window of twelve bytes, the values of \<open>x\<close>, \<open>y\<close>, \<open>z\<close> after
  \<open>Packet.deserialize\<close> depend on the window only: from any two packet states the call
  succeeds and leaves the same three values.
\<close>

theorem deserialize_overwrites_all_fields:
  assumes "p_format p1 = ''<III''" and "p_format p2 = ''<III''" and "length window = 12"
  shows "\<exists>q1 q2. Packet_deserialize p1 window = Inr q1
                \<and> Packet_deserialize p2 window = Inr q2
                \<and> p_x q1 = p_x q2 \<and> p_y q1 = p_y q2 \<and> p_z q1 = p_z q2"
  using assms by (simp add: Packet_deserialize_III)

theorem deserialize_overwrites_all_fields_witness:
  "p_format main_packet = ''<III''
   \<and> p_format (main_packet\<lparr>p_x := 7, p_y := 8, p_z := 9\<rparr>) = ''<III''
   \<and> length [1, 0, 0, 0, 2, 0, 0, 0, 3, 0, 0, 0 :: byte] = 12
   \<and> (\<exists>q1 q2.
        Packet_deserialize main_packet [1, 0, 0, 0, 2, 0, 0, 0, 3, 0, 0, 0] = Inr q1
      \<and> Packet_deserialize (main_packet\<lparr>p_x := 7, p_y := 8, p_z := 9\<rparr>)
          [1, 0, 0, 0, 2, 0, 0, 0, 3, 0, 0, 0] = Inr q2
      \<and> p_x q1 = p_x q2 \<and> p_y q1 = p_y q2 \<and> p_z q1 = p_z q2)"
  using deserialize_overwrites_all_fields
    [of main_packet "main_packet\<lparr>p_x := 7, p_y := 8, p_z := 9\<rparr>"
        "[1, 0, 0, 0, 2, 0, 0, 0, 3, 0, 0, 0]"]
  by (simp add: main_packet_def)

end
